theory Spec2Isabelle
  imports Main "HOL-Library.Multiset" "HOL-Library.Signed_Division"
begin

chapter \<open>The program\<close>

section \<open>Data model of bigO.c\<close>

text \<open>
  A C pointer to a block of cells is modelled as a function from the index (relative to
  the pointer) to the cell's content. The cells \<open>0 .. sz - 1\<close> are the allocated block; the
  other cells are whatever memory lies around it, so a read past the block returns an
  arbitrary value instead of being hidden. \<open>int\<close> and \<open>long\<close> values are unbounded
  integers: every index and every sum of the program stays below \<open>2^62\<close> for arrays of fewer
  than \<open>2^31\<close> elements, so no machine arithmetic wraps there. C's \<open>/\<close> and \<open>%\<close> truncate
  towards zero: \<open>sdiv\<close> and \<open>smod\<close>.
\<close>

type_synonym memory = "int \<Rightarrow> int"

record array =
  sz :: int
  vals :: memory

record search =
  needle :: int
  haystack :: array

record range_sum =
  slice_sum :: memory
  root_sz :: int
  rs_from :: int
  rs_to :: int
  array :: array

text \<open>The sequence an array holds, and the array that holds a sequence (with \<open>junk\<close> around it).\<close>

definition contents :: "array \<Rightarrow> int list" where
  "contents a = map (\<lambda>k. vals a (int k)) [0..<nat (sz a)]"

definition array_of :: "memory \<Rightarrow> int list \<Rightarrow> array" where
  "array_of junk xs =
     \<lparr>sz = int (length xs),
      vals = (\<lambda>i. if 0 \<le> i \<and> i < int (length xs) then xs ! nat i else junk i)\<rparr>"

section \<open>Calls that give no result\<close>

text \<open>
  A call of the program either returns or it does not: it divides by zero, converts a NaN,
  reads through a null pointer, is made through a function pointer on data of another shape,
  runs off the initialised registry, or never leaves a loop. Loops that may run forever are partial functions with
  \<open>None\<close> for no result; \<open>returned\<close> turns that into the fault \<open>No_return\<close>.
\<close>

datatype fault =
  Division_by_zero | Sqrt_of_negative | Null_dereference | Bad_call | Past_registry | No_return

definition returned :: "'a option \<Rightarrow> fault + 'a" where
  "returned r = (case r of None \<Rightarrow> Inl No_return | Some v \<Rightarrow> Inr v)"

section \<open>O(1): get_first\<close>

text \<open>
  Every algorithm returns the value of the expression it hands to \<open>RESULT\<close>: the macro
  only prints the expression's text (or sets a dummy), so the value is the model's result.
\<close>

definition get_first :: "array \<Rightarrow> int" where
  "get_first a = (if sz a > 0 then vals a 0 else - 1)"

section \<open>O(log n): binary_jump_search\<close>

text \<open>
  The two nested \<open>while\<close> loops as one recursive function on \<open>(jump, pos)\<close>: while
  \<open>jump > 0\<close>, the inner test either advances \<open>pos\<close> by \<open>jump\<close> and is tested again, or
  fails and \<open>jump\<close> is halved. The inner test reads \<open>vals[pos+jump]\<close> only after
  \<open>pos + jump < sz\<close> held. After the loops \<open>vals[pos]\<close> is read with no test at all.
\<close>

function jump_search_loop :: "search \<Rightarrow> int \<Rightarrow> int \<Rightarrow> int" where
  "jump_search_loop s jump pos =
     (if jump > 0 then
        (if pos + jump < sz (haystack s) \<and> vals (haystack s) (pos + jump) \<le> needle s
         then jump_search_loop s jump (pos + jump)
         else jump_search_loop s (jump sdiv 2) pos)
      else pos)"
  by pat_completeness auto
termination
  by (relation "measures [\<lambda>(s, jump, pos). nat jump,
                          \<lambda>(s, jump, pos). nat (sz (haystack s) - pos)]")
     (auto simp: signed_divide_int_def sgn_if)

declare jump_search_loop.simps [simp del]

definition binary_jump_search :: "search \<Rightarrow> string" where
  "binary_jump_search s =
     (let jump = sz (haystack s) sdiv 2;
          pos = jump_search_loop s jump 0
      in if vals (haystack s) pos = needle s then ''Found needle!''
         else ''Needle not found!'')"

section \<open>O(sqrt n): range_sum_query and setup_slice_sums\<close>

text \<open>
  \<open>(long)sqrt(x)\<close> for \<open>x \<ge> 0\<close>: the largest \<open>k\<close> with \<open>k * k \<le> x\<close>, counted up from 0
  (the double square root of a long below \<open>2^52\<close>, truncated).
\<close>

function sqrt_from :: "nat \<Rightarrow> nat \<Rightarrow> nat" where
  "sqrt_from x k = (if (k + 1) * (k + 1) \<le> x then sqrt_from x (k + 1) else k)"
  by pat_completeness auto
termination
proof (relation "measure (\<lambda>(x, k). x - k)")
  show "wf (measure (\<lambda>(x, k). x - k))" by simp
next
  fix x k :: nat
  assume le: "(k + 1) * (k + 1) \<le> x"
  have "k + 1 \<le> (k + 1) * (k + 1)" by simp
  with le have "k < x" by linarith
  then show "((x, k + 1), (x, k)) \<in> measure (\<lambda>(x, k). x - k)" by simp
qed

declare sqrt_from.simps [simp del]

definition long_sqrt :: "int \<Rightarrow> int" where
  "long_sqrt x = int (sqrt_from (nat x) 0)"

text \<open>The first loop of \<open>range_sum_query\<close>: single elements while \<open>i + 1\<close> is no multiple of
  the block size.\<close>

function query_head :: "range_sum \<Rightarrow> int \<Rightarrow> int \<Rightarrow> int \<times> int" where
  "query_head rs i sumv =
     (if (i + 1) smod root_sz rs \<noteq> 0 \<and> i \<le> rs_to rs
      then query_head rs (i + 1) (sumv + vals (array rs) i)
      else (i, sumv))"
  by pat_completeness auto
termination
  by (relation "measure (\<lambda>(rs, i, sumv). nat (rs_to rs + 1 - i))") auto

text \<open>The second loop: whole block sums. With a negative block size it never ends.\<close>

partial_function (option) query_blocks :: "range_sum \<Rightarrow> int \<Rightarrow> int \<Rightarrow> (int \<times> int) option" where
  "query_blocks rs i sumv =
     (if i + root_sz rs \<le> rs_to rs
      then query_blocks rs (i + root_sz rs) (sumv + slice_sum rs (i sdiv root_sz rs))
      else Some (i, sumv))"

declare query_blocks.simps [code]

text \<open>The third loop: the remaining single elements.\<close>

function query_tail :: "range_sum \<Rightarrow> int \<Rightarrow> int \<Rightarrow> int" where
  "query_tail rs i sumv =
     (if i \<le> rs_to rs then query_tail rs (i + 1) (sumv + vals (array rs) i) else sumv)"
  by pat_completeness auto
termination
  by (relation "measure (\<lambda>(rs, i, sumv). nat (rs_to rs + 1 - i))") auto

declare query_head.simps [simp del] query_tail.simps [simp del]

definition range_sum_query :: "range_sum \<Rightarrow> fault + int" where
  "range_sum_query rs =
     (if root_sz rs = 0 then Inl Division_by_zero
      else case query_head rs (rs_from rs) 0 of (i, sumv) \<Rightarrow>
        (case query_blocks rs i sumv of
           None \<Rightarrow> Inl No_return
         | Some (i', sumv') \<Rightarrow> Inr (query_tail rs i' sumv')))"

text \<open>The two \<open>for\<close> loops of \<open>setup_slice_sums\<close>.\<close>

function zero_slices :: "memory \<Rightarrow> int \<Rightarrow> int \<Rightarrow> memory" where
  "zero_slices ss num_slices i =
     (if i < num_slices then zero_slices (ss(i := 0)) num_slices (i + 1) else ss)"
  by pat_completeness auto
termination
  by (relation "measure (\<lambda>(ss, num_slices, i). nat (num_slices - i))") auto

function add_slices :: "array \<Rightarrow> int \<Rightarrow> memory \<Rightarrow> int \<Rightarrow> memory" where
  "add_slices a root ss i =
     (if i < sz a
      then add_slices a root (ss(i sdiv root := ss (i sdiv root) + vals a i)) (i + 1)
      else ss)"
  by pat_completeness auto
termination
  by (relation "measure (\<lambda>(a, root, ss, i). nat (sz a - i))") auto

declare zero_slices.simps [simp del] add_slices.simps [simp del]

text \<open>
  \<open>fresh\<close> is the block \<open>malloc\<close> returns for the slice sums, with whatever it holds. The
  square root of a negative size is a NaN, and a size of 0 gives the block size 0, by which
  the number of slices is divided: neither call has a result.
\<close>

definition setup_slice_sums :: "memory \<Rightarrow> range_sum \<Rightarrow> fault + range_sum" where
  "setup_slice_sums fresh rs =
     (if sz (array rs) < 0 then Inl Sqrt_of_negative
      else let root = long_sqrt (sz (array rs)) in
        if root = 0 then Inl Division_by_zero
        else let max_slice = sz (array rs) sdiv root;
                 num_slices = max_slice + 1;
                 zeroed = zero_slices fresh num_slices 0
             in Inr (rs\<lparr>slice_sum := add_slices (array rs) root zeroed 0, root_sz := root\<rparr>))"

section \<open>O(n): linear_search\<close>

function linear_search_loop :: "search \<Rightarrow> int \<Rightarrow> string" where
  "linear_search_loop s i =
     (if i < sz (haystack s) then
        (if vals (haystack s) i = needle s then ''Found needle!''
         else linear_search_loop s (i + 1))
      else ''Needle Not Found!'')"
  by pat_completeness auto
termination
  by (relation "measure (\<lambda>(s, i). nat (sz (haystack s) - i))") auto

declare linear_search_loop.simps [simp del]

definition linear_search :: "search \<Rightarrow> string" where
  "linear_search s = linear_search_loop s 0"

section \<open>O(n log n): quick_sort\<close>

text \<open>
  The sort works on the memory behind the \<open>int*\<close> it is given. Every function returns,
  next to its result, the cells it read and wrote, in order: \<open>Rd i\<close> for a read of
  \<open>array[i]\<close>, \<open>Wr i\<close> for a write.
\<close>

datatype access = Rd int | Wr int

text \<open>
  \<open>while(array[left] <= pivot && left <= high) left++;\<close> Each test reads \<open>array[left]\<close>
  first and compares \<open>left\<close> with \<open>high\<close> only if the element was not greater than the pivot.
\<close>

function scan_left :: "memory \<Rightarrow> int \<Rightarrow> int \<Rightarrow> int \<Rightarrow> access list \<Rightarrow> int \<times> access list" where
  "scan_left a pivot high left tr =
     (if a left \<le> pivot \<and> left \<le> high
      then scan_left a pivot high (left + 1) (tr @ [Rd left])
      else (left, tr @ [Rd left]))"
  by pat_completeness auto
termination
  by (relation "measure (\<lambda>(a, pivot, high, left, tr). nat (high + 1 - left))") auto

declare scan_left.simps [simp del]

text \<open>\<open>while(array[right] > pivot) right--;\<close> has no bound on \<open>right\<close> at all.\<close>

partial_function (option) scan_right ::
  "memory \<Rightarrow> int \<Rightarrow> int \<Rightarrow> access list \<Rightarrow> (int \<times> access list) option" where
  "scan_right a pivot right tr =
     (if a right > pivot then scan_right a pivot (right - 1) (tr @ [Rd right])
      else Some (right, tr @ [Rd right]))"

declare scan_right.simps [code]

text \<open>The outer loop of \<open>partition_1\<close>, from the test \<open>left < right\<close> on.\<close>

partial_function (option) partition_loop ::
  "int \<Rightarrow> int \<Rightarrow> memory \<Rightarrow> int \<Rightarrow> int \<Rightarrow> access list \<Rightarrow> (memory \<times> int \<times> access list) option" where
  "partition_loop pivot high a left right tr =
     (if left < right then
        (case scan_left a pivot high left tr of (left', tr1) \<Rightarrow>
           Option.bind (scan_right a pivot right tr1) (\<lambda>(right', tr2).
             if left' < right'
             then partition_loop pivot high (a(left' := a right', right' := a left')) left' right'
                    (tr2 @ [Rd left', Rd right', Wr left', Wr right'])
             else partition_loop pivot high a left' right' tr2))
      else Some (a, right, tr))"

declare partition_loop.simps [code]

definition partition_1 :: "memory \<Rightarrow> int \<Rightarrow> int \<Rightarrow> (memory \<times> int \<times> access list) option" where
  "partition_1 a low high =
     (let pivot = a low in
      Option.bind (partition_loop pivot high a low high [Rd low]) (\<lambda>(a', right, tr).
        Some (a'(low := a' right, right := pivot), right, tr @ [Rd right, Wr low, Wr right])))"

partial_function (option) quick_sort_1 ::
  "memory \<Rightarrow> int \<Rightarrow> int \<Rightarrow> (memory \<times> access list) option" where
  "quick_sort_1 a low high =
     (if low < high then
        Option.bind (partition_1 a low high) (\<lambda>(a1, pivot, tr1).
        Option.bind (quick_sort_1 a1 low (pivot - 1)) (\<lambda>(a2, tr2).
        Option.bind (quick_sort_1 a2 (pivot + 1) high) (\<lambda>(a3, tr3).
          Some (a3, tr1 @ tr2 @ tr3))))
      else Some (a, []))"

declare quick_sort_1.simps [code]

definition quick_sort :: "array \<Rightarrow> (array \<times> access list) option" where
  "quick_sort arr =
     Option.bind (quick_sort_1 (vals arr) 0 (sz arr - 1)) (\<lambda>(a, tr).
       Some (arr\<lparr>vals := a\<rparr>, tr))"

section \<open>O(n^2): find_max_seq_sum\<close>

text \<open>
  The two nested \<open>for\<close> loops. \<open>curr_sum\<close> and \<open>max_sum\<close> are doubles holding integers;
  double addition is exact below \<open>2^53\<close>, which the sums of fewer than \<open>2^22\<close> ints are.
  The function returns the value handed to \<open>RESULT\<close>.
\<close>

function max_seq_inner :: "array \<Rightarrow> int \<Rightarrow> int \<Rightarrow> int \<Rightarrow> int" where
  "max_seq_inner a j curr_sum max_sum =
     (if j < sz a then
        (let curr_sum' = curr_sum + vals a j;
             max_sum' = (if curr_sum' > max_sum then curr_sum' else max_sum)
         in max_seq_inner a (j + 1) curr_sum' max_sum')
      else max_sum)"
  by pat_completeness auto
termination
  by (relation "measure (\<lambda>(a, j, c, m). nat (sz a - j))") auto

function max_seq_outer :: "array \<Rightarrow> int \<Rightarrow> int \<Rightarrow> int" where
  "max_seq_outer a i max_sum =
     (if i < sz a then max_seq_outer a (i + 1) (max_seq_inner a i 0 max_sum)
      else max_sum)"
  by pat_completeness auto
termination
  by (relation "measure (\<lambda>(a, i, m). nat (sz a - i))") auto

declare max_seq_inner.simps [simp del] max_seq_outer.simps [simp del]


section \<open>O(2^n): solve_hanoi\<close>

text \<open>The output is the list of notifications handed to \<open>RESULT\<close>, in order.\<close>

function solve_hanoi_1 :: "int \<Rightarrow> int \<Rightarrow> int \<Rightarrow> int \<Rightarrow> string list" where
  "solve_hanoi_1 num from_peg to_peg spare_peg =
     (if num < 1 then []
      else (if num > 1 then solve_hanoi_1 (num - 1) from_peg spare_peg to_peg else [])
           @ [''move remaining one from_peg -> to_peg'']
           @ (if num > 1 then solve_hanoi_1 (num - 1) spare_peg to_peg from_peg else []))"
  by pat_completeness auto
termination
  by (relation "measure (\<lambda>(num, f, t, s). nat num)") auto

declare solve_hanoi_1.simps [simp del]

definition solve_hanoi :: "int \<Rightarrow> string list" where
  "solve_hanoi num = solve_hanoi_1 num 1 2 3"

section \<open>The registry of algorithms\<close>

datatype OClass =
  O1 | O_logn | O_sqrtn | O_n | O_nlogn | O_n_power_2 | O_2_power_n | O_n_permut | O_n_power_n


text \<open>
  \<open>func\<close> names the functions whose addresses are stored in \<open>algo\<close>, \<open>payload\<close> is what
  the \<open>void*\<close> in \<open>data\<close> points to (or, for the disk count, the long it was cast from). A
  null pointer is \<open>None\<close>.
\<close>

datatype func =
  Get_first | Binary_jump_search | Range_sum_query | Linear_search | Quick_sort
  | Find_max_seq_sum | Solve_hanoi | Do_nothing

datatype payload =
  Array_data array | Search_data search | Range_sum_data range_sum | Long_data int

record environment =
  n :: int
  algo :: "func option"
  data :: "payload option"
  oclass :: OClass

text \<open>
  What the program takes from outside: the values \<open>rand()\<close> and \<open>clock()\<close> return, call by
  call, and what the blocks \<open>malloc\<close> returns hold before they are written. Every
  allocation of fewer than \<open>2^63\<close> bytes is taken to succeed.
\<close>

record world =
  rand :: "nat \<Rightarrow> nat"
  clock :: "nat \<Rightarrow> int"
  fresh_ints :: "nat \<Rightarrow> memory"
  fresh_range_sum :: range_sum
  fresh_environment :: environment

section \<open>Running and reporting\<close>







section \<open>create_environments\<close>

text \<open>\<open>create_int_array\<close>: \<open>k\<close> counts the calls of \<open>rand()\<close> made so far.\<close>

function fill_int_array :: "(nat \<Rightarrow> nat) \<Rightarrow> memory \<Rightarrow> int \<Rightarrow> int \<Rightarrow> nat \<Rightarrow> memory \<times> nat" where
  "fill_int_array rnd a sz' i k =
     (if i < sz' then fill_int_array rnd (a(i := int (rnd k))) sz' (i + 1) (k + 1)
      else (a, k))"
  by pat_completeness auto
termination
  by (relation "measure (\<lambda>(rnd, a, sz', i, k). nat (sz' - i))") auto

declare fill_int_array.simps [simp del]

definition create_int_array :: "(nat \<Rightarrow> nat) \<Rightarrow> memory \<Rightarrow> int \<Rightarrow> nat \<Rightarrow> memory \<times> nat" where
  "create_int_array rnd fresh sz' k = fill_int_array rnd fresh sz' 0 k"

text \<open>The loop that draws the two bounds again while \<open>from < to\<close>.\<close>

partial_function (option) draw_again ::
  "(nat \<Rightarrow> nat) \<Rightarrow> int \<Rightarrow> int \<Rightarrow> int \<Rightarrow> nat \<Rightarrow> (int \<times> int \<times> nat) option" where
  "draw_again rnd sz' from' to' k =
     (if from' < to'
      then draw_again rnd sz' (int (rnd k) smod sz') (int (rnd (k + 1)) smod sz') (k + 2)
      else Some (from', to', k))"

declare draw_again.simps [code]

text \<open>
  \<open>malloc(sz * sizeof(int))\<close>: the product is a \<open>size_t\<close>, taken modulo \<open>2^64\<close>. No
  allocation of \<open>2^63\<close> bytes or more succeeds, and \<open>malloc\<close> returns a null pointer: so
  it is for every size from \<open>-2^61\<close> to \<open>-1\<close>, whose product is \<open>2^64 - 4 * |sz|\<close>, and for
  every size from \<open>2^61\<close> to \<open>2^62 - 1\<close>.
\<close>

definition malloc_refused :: "int \<Rightarrow> bool" where
  "malloc_refused sz' = (2 ^ 63 \<le> (sz' * 4) mod 2 ^ 64)"

definition long_as_pointer :: "int \<Rightarrow> payload option" where
  "long_as_pointer v = (if v = 0 then None else Some (Long_data v))"

text \<open>
  The three arrays, the search, the range sum and the ten entries of the registry, the last
  of which has only its \<open>algo\<close> written. \<open>rand() % sz\<close> divides by the size. With a
  positive size that \<open>malloc\<close> refuses, \<open>create_int_array\<close> writes the first element
  through the null pointer. With a negative one \<open>create_int_array\<close> and \<open>quick_sort\<close> touch
  no element, and the first read through the null pointer is that of the needle.
\<close>

definition create_environments :: "world \<Rightarrow> int \<Rightarrow> fault + environment list" where
  "create_environments w sz' =
     (if 0 < sz' \<and> malloc_refused sz' then Inl Null_dereference
      else
      case create_int_array (rand w) (fresh_ints w 0) sz' 0 of (vals1, k1) \<Rightarrow>
      case returned (quick_sort \<lparr>sz = sz', vals = vals1\<rparr>) of
        Inl e \<Rightarrow> Inl e
      | Inr (sorted_array, tr) \<Rightarrow>
      case create_int_array (rand w) (fresh_ints w 1) sz' k1 of (vals2, k2) \<Rightarrow>
      case create_int_array (rand w) (fresh_ints w 2) sz' k2 of (vals3, k3) \<Rightarrow>
      let arr = \<lparr>sz = sz', vals = vals2\<rparr>;
          mutable_array = \<lparr>sz = sz', vals = vals3\<rparr>
      in if sz' = 0 then Inl Division_by_zero
      else if malloc_refused sz' then Inl Null_dereference
      else
      let search = \<lparr>needle = vals sorted_array (int (rand w k3) smod sz'),
                    haystack = sorted_array\<rparr>
      in case setup_slice_sums (fresh_ints w 3) ((fresh_range_sum w)\<lparr>array := arr\<rparr>) of
        Inl e \<Rightarrow> Inl e
      | Inr rs0 \<Rightarrow>
      case returned (draw_again (rand w) sz'
             (int (rand w (k3 + 1)) smod sz') (int (rand w (k3 + 2)) smod sz') (k3 + 3)) of
        Inl e \<Rightarrow> Inl e
      | Inr (from', to', k4) \<Rightarrow>
      let rs = rs0\<lparr>rs_from := from', rs_to := to'\<rparr>
      in Inr
        [\<lparr>n = sz arr, algo = Some Get_first, data = Some (Array_data arr), oclass = O1\<rparr>,
         \<lparr>n = sz (haystack search), algo = Some Binary_jump_search,
          data = Some (Search_data search), oclass = O_logn\<rparr>,
         \<lparr>n = sz (array rs), algo = Some Range_sum_query,
          data = Some (Range_sum_data rs), oclass = O_sqrtn\<rparr>,
         \<lparr>n = sz (haystack search), algo = Some Linear_search,
          data = Some (Search_data search), oclass = O_n\<rparr>,
         \<lparr>n = sz mutable_array, algo = Some Quick_sort,
          data = Some (Array_data mutable_array), oclass = O_nlogn\<rparr>,
         \<lparr>n = sz arr, algo = Some Find_max_seq_sum,
          data = Some (Array_data arr), oclass = O_n_power_2\<rparr>,
         \<lparr>n = sz', algo = Some Solve_hanoi, data = long_as_pointer sz',
          oclass = O_2_power_n\<rparr>,
         \<lparr>n = sz', algo = Some Do_nothing, data = None, oclass = O_n_permut\<rparr>,
         \<lparr>n = sz', algo = Some Do_nothing, data = None, oclass = O_n_power_n\<rparr>,
         (fresh_environment w)\<lparr>algo := None\<rparr>])"

section \<open>main\<close>

text \<open>
  \<open>atol\<close> of the C library, which is \<open>strtol\<close> in base 10: white space is skipped, then an
  optional sign and the decimal digits up to the first other character are read; without a
  digit the value is 0, and a value outside the range of \<open>long\<close> is returned as \<open>LONG_MAX\<close>
  or \<open>LONG_MIN\<close>.
\<close>

definition long_max :: int where
  "long_max = 2 ^ 63 - 1"

definition long_min :: int where
  "long_min = - (2 ^ 63)"

definition saturate :: "int \<Rightarrow> int" where
  "saturate v = (if long_max < v then long_max else if v < long_min then long_min else v)"

definition is_space :: "char \<Rightarrow> bool" where
  "is_space c = ((of_char c :: nat) = 32 \<or> (9 \<le> (of_char c :: nat) \<and> (of_char c :: nat) \<le> 13))"

definition is_digit :: "char \<Rightarrow> bool" where
  "is_digit c = (48 \<le> (of_char c :: nat) \<and> (of_char c :: nat) \<le> 57)"

fun atol_digits :: "string \<Rightarrow> int \<Rightarrow> int" where
  "atol_digits [] acc = acc"
| "atol_digits (c # cs) acc =
     (if is_digit c then atol_digits cs (10 * acc + (int (of_char c) - 48)) else acc)"

definition atol :: "string \<Rightarrow> int" where
  "atol s =
     saturate
       (case dropWhile is_space s of
          [] \<Rightarrow> 0
        | c # cs \<Rightarrow>
            if c = CHR ''-'' then - atol_digits cs 0
            else if c = CHR ''+'' then atol_digits cs 0
            else atol_digits (c # cs) 0)"




chapter \<open>Verification\<close>

section \<open>Arrays and C arithmetic\<close>

lemma contents_array_of: "contents (array_of junk xs) = xs"
  by (rule nth_equalityI) (simp_all add: contents_def array_of_def)




lemma smod_nonneg_eq_mod: "0 \<le> a \<Longrightarrow> 0 < b \<Longrightarrow> a smod b = a mod (b::int)"
  by (simp add: signed_modulo_int_def sgn_if)




section \<open>The two searches\<close>








text \<open>
  C5. \<open>binary_jump_search\<close> has no test for an empty haystack: with \<open>sz = 0\<close> both loops are
  skipped and \<open>vals[0]\<close>, a cell outside the empty block, decides the answer. When that cell
  happens to hold the needle the search of an empty haystack reports found;
  \<open>linear_search\<close> and \<open>get_first\<close> do test the size.
\<close>

theorem binary_jump_search_empty_reads_cell_0:
  "binary_jump_search \<lparr>needle = 7, haystack = \<lparr>sz = 0, vals = (\<lambda>_. 7)\<rparr>\<rparr> = ''Found needle!''
   \<and> contents \<lparr>sz = 0, vals = (\<lambda>_. 7)\<rparr> = []
   \<and> linear_search \<lparr>needle = 7, haystack = \<lparr>sz = 0, vals = (\<lambda>_. 7)\<rparr>\<rparr> = ''Needle Not Found!''
   \<and> get_first \<lparr>sz = 0, vals = (\<lambda>_. 7)\<rparr> = - 1"
  by (simp add: binary_jump_search_def jump_search_loop.simps linear_search_def
      linear_search_loop.simps get_first_def contents_def)

section \<open>Block-sum range query\<close>

lemma sqrt_from_bounds:
  "k * k \<le> x \<Longrightarrow> sqrt_from x k * sqrt_from x k \<le> x \<and> x < (sqrt_from x k + 1) * (sqrt_from x k + 1)"
proof (induction x k rule: sqrt_from.induct)
  case (1 x k)
  show ?case
  proof (cases "(k + 1) * (k + 1) \<le> x")
    case True
    have eq: "sqrt_from x k = sqrt_from x (k + 1)"
      by (subst sqrt_from.simps) (use True in simp)
    show ?thesis using "1.IH" [OF True True] unfolding eq .
  next
    case False
    have eq: "sqrt_from x k = k"
      by (subst sqrt_from.simps) (use False in simp)
    show ?thesis using False "1.prems" unfolding eq by simp
  qed
qed

lemma long_sqrt_bounds:
  "0 \<le> x \<Longrightarrow> 0 \<le> long_sqrt x \<and> long_sqrt x * long_sqrt x \<le> x \<and> x < (long_sqrt x + 1) * (long_sqrt x + 1)"
proof -
  assume x: "0 \<le> x"
  define r where "r = sqrt_from (nat x) 0"
  have "r * r \<le> nat x \<and> nat x < (r + 1) * (r + 1)"
    unfolding r_def by (rule sqrt_from_bounds) simp
  then have "int (r * r) \<le> int (nat x)" and "int (nat x) < int ((r + 1) * (r + 1))"
    by (simp_all only: of_nat_le_iff of_nat_less_iff)
  with x show ?thesis
    by (simp add: long_sqrt_def r_def [symmetric] algebra_simps)
qed

lemma long_sqrt_pos: "0 < x \<Longrightarrow> 0 < long_sqrt x"
proof (rule ccontr)
  assume x: "0 < x" and "\<not> 0 < long_sqrt x"
  moreover have "0 \<le> long_sqrt x" and "x < (long_sqrt x + 1) * (long_sqrt x + 1)"
    using long_sqrt_bounds [of x] x by simp_all
  ultimately have "long_sqrt x = 0" and "x < (long_sqrt x + 1) * (long_sqrt x + 1)" by simp_all
  then show False using x by simp
qed

text \<open>
  C2. The specification takes \<open>range_sum_query\<close> on the index built by \<open>setup_slice_sums\<close>
  to equal the direct sum of the elements \<open>from .. to\<close>. The first loop stops where \<open>i + 1\<close> is a multiple
  of the block size, on the last element of a block instead of the first of the next, and
  the second loop then adds the sum of the block that ends at \<open>i\<close>. For the array
  \<open>[1, 2, 3, 4]\<close> (block size 2, block sums 3 and 7) and the range \<open>0 .. 3\<close> the query gives
  \<open>1 + 3 + 4 = 8\<close>, the direct sum is 10.
\<close>

theorem range_sum_query_differs_from_direct_sum:
  "(case setup_slice_sums fresh
           \<lparr>slice_sum = fresh, root_sz = 0, rs_from = 0, rs_to = 3,
            array = array_of junk [1, 2, 3, 4]\<rparr> of
      Inl e \<Rightarrow> Inl e
    | Inr rs \<Rightarrow> range_sum_query rs) = Inr 8
   \<and> sum_list (map (vals (array_of junk [1, 2, 3, 4])) [0..3]) = 10"
proof -
  have root: "long_sqrt 4 = 2"
    by (simp add: long_sqrt_def sqrt_from.simps)
  have list: "[0..3::int] = [0, 1, 2, 3]"
    by (simp add: upto.simps)
  show ?thesis
    by (simp add: setup_slice_sums_def root Let_def range_sum_query_def
        signed_divide_int_def signed_modulo_int_def list array_of_def
        zero_slices.simps add_slices.simps query_head.simps query_blocks.simps
        query_tail.simps)
qed

subsection \<open>Where the query is the direct sum\<close>

lemma query_head_run:
  assumes "\<forall>k. i \<le> k \<and> k < m \<longrightarrow> (k + 1) smod root_sz rs \<noteq> 0"
    and "i \<le> m" and "m \<le> rs_to rs + 1"
    and "m = rs_to rs + 1 \<or> (m + 1) smod root_sz rs = 0"
  shows "query_head rs i s = (m, s + sum_list (map (vals (array rs)) [i..m - 1]))"
  using assms(1,2)
proof (induction "nat (m - i)" arbitrary: i s)
  case 0
  then have eq: "i = m" by simp
  have "\<not> ((m + 1) smod root_sz rs \<noteq> 0 \<and> m \<le> rs_to rs)"
    using assms(4) by auto
  then have "query_head rs m s = (m, s)"
    by (subst query_head.simps) auto
  then show ?case unfolding eq by simp
next
  case (Suc d)
  then have lt: "i < m" by simp
  with Suc.prems(1) assms(3) have test: "(i + 1) smod root_sz rs \<noteq> 0 \<and> i \<le> rs_to rs"
    by simp
  have eq: "query_head rs i s = query_head rs (i + 1) (s + vals (array rs) i)"
    by (subst query_head.simps) (use test in simp)
  have d: "d = nat (m - (i + 1))" using Suc.hyps(2) by simp
  have rest: "\<forall>k. i + 1 \<le> k \<and> k < m \<longrightarrow> (k + 1) smod root_sz rs \<noteq> 0"
    using Suc.prems(1) by simp
  have "query_head rs (i + 1) (s + vals (array rs) i)
      = (m, s + vals (array rs) i + sum_list (map (vals (array rs)) [i + 1..m - 1]))"
    using Suc.hyps(1) [OF d rest] lt by simp
  moreover have "[i..m - 1] = i # [i + 1..m - 1]"
    using lt by (simp add: upto_rec1)
  ultimately show ?case unfolding eq by simp
qed

lemma range_sum_query_within_block:
  assumes root: "0 < root_sz rs" and le: "rs_from rs \<le> rs_to rs"
    and inside: "\<forall>k. rs_from rs \<le> k \<and> k < rs_to rs \<longrightarrow> (k + 1) smod root_sz rs \<noteq> 0"
  shows "range_sum_query rs = Inr (sum_list (map (vals (array rs)) [rs_from rs..rs_to rs]))"
proof (cases "(rs_to rs + 1) smod root_sz rs = 0")
  case True
  have head: "query_head rs (rs_from rs) 0
      = (rs_to rs, 0 + sum_list (map (vals (array rs)) [rs_from rs..rs_to rs - 1]))"
    by (rule query_head_run) (use inside le True in simp_all)
  have blocks: "query_blocks rs (rs_to rs) v = Some (rs_to rs, v)" for v
    by (subst query_blocks.simps) (use root in simp)
  have "query_tail rs (rs_to rs + 1) v = v" for v
    by (subst query_tail.simps) simp
  then have tail: "query_tail rs (rs_to rs) v = v + vals (array rs) (rs_to rs)" for v
    by (subst query_tail.simps) simp
  have "[rs_from rs..rs_to rs] = [rs_from rs..rs_to rs - 1] @ [rs_to rs]"
    using le by (rule upto_rec2)
  then show ?thesis
    using root by (simp add: range_sum_query_def head blocks tail)
next
  case False
  have all: "\<forall>k. rs_from rs \<le> k \<and> k < rs_to rs + 1 \<longrightarrow> (k + 1) smod root_sz rs \<noteq> 0"
  proof (intro allI impI)
    fix k assume "rs_from rs \<le> k \<and> k < rs_to rs + 1"
    then show "(k + 1) smod root_sz rs \<noteq> 0"
      using inside False by (cases "k = rs_to rs") auto
  qed
  have head: "query_head rs (rs_from rs) 0
      = (rs_to rs + 1, 0 + sum_list (map (vals (array rs)) [rs_from rs..rs_to rs + 1 - 1]))"
    by (rule query_head_run) (use all le in simp_all)
  have blocks: "query_blocks rs (rs_to rs + 1) v = Some (rs_to rs + 1, v)" for v
    by (subst query_blocks.simps) (use root in simp)
  have tail: "query_tail rs (rs_to rs + 1) v = v" for v
    by (subst query_tail.simps) simp
  show ?thesis
    using root by (simp add: range_sum_query_def head blocks tail)
qed

lemma range_sum_query_reversed:
  assumes root: "0 < root_sz rs" and gt: "rs_to rs < rs_from rs"
  shows "range_sum_query rs = Inr 0"
proof -
  have head: "query_head rs (rs_from rs) 0 = (rs_from rs, 0)"
    by (subst query_head.simps) (use gt in simp)
  have blocks: "query_blocks rs (rs_from rs) 0 = Some (rs_from rs, 0)"
    by (subst query_blocks.simps) (use root gt in simp)
  have tail: "query_tail rs (rs_from rs) 0 = 0"
    by (subst query_tail.simps) (use gt in simp)
  show ?thesis
    using root by (simp add: range_sum_query_def head blocks tail)
qed

section \<open>Quicksort\<close>

subsection \<open>Segments of memory\<close>

lemma mset_map_upto: "mset (map a [l..h]) = image_mset a (mset_set {l..h})"
proof -
  have "mset [l..h] = mset_set {l..h}"
    using mset_set_set [of "[l..h]"] by simp
  then have "image_mset a (mset [l..h]) = image_mset a (mset_set {l..h})" by simp
  then show ?thesis by (simp only: mset_map)
qed

lemma mset_segment_swap:
  assumes i: "l \<le> i" "i \<le> h" and j: "l \<le> j" "j \<le> h"
  shows "mset (map (a(i := a j, j := a i)) [l..h]) = mset (map a [l..h])"
proof (cases "i = j")
  case True
  then have "a(i := a j, j := a i) = a" by auto
  then show ?thesis by simp
next
  case False
  define R where "R = {l..h} - {i, j}"
  have split: "{l..h} = R \<union> {i, j}" and disj: "R \<inter> {i, j} = {}" and fin: "finite R"
    using i j by (auto simp: R_def)
  have "mset_set (R \<union> {i, j}) = mset_set R + mset_set {i, j}"
    by (rule mset_set_Union) (use fin disj in simp_all)
  then have whole: "mset_set {l..h} = mset_set R + mset_set {i, j}"
    using split by simp
  have pair: "mset_set {i, j} = {#i, j#}"
    using False by simp
  have rest: "image_mset (a(i := a j, j := a i)) (mset_set R) = image_mset a (mset_set R)"
    by (rule image_mset_cong) (use fin in \<open>auto simp: R_def\<close>)
  show ?thesis
    unfolding mset_map_upto whole image_mset_union rest pair
    using False by simp
qed

subsection \<open>The two cursor loops\<close>

lemma scan_left_spec:
  "\<exists>left' tr'. scan_left a pivot high left tr = (left', tr')
     \<and> left \<le> left' \<and> (left \<le> high + 1 \<longrightarrow> left' \<le> high + 1)
     \<and> (\<forall>i. left \<le> i \<and> i < left' \<longrightarrow> a i \<le> pivot)
     \<and> \<not> (a left' \<le> pivot \<and> left' \<le> high)"
proof (induction a pivot high left tr rule: scan_left.induct)
  case (1 a pivot high left tr)
  show ?case
  proof (cases "a left \<le> pivot \<and> left \<le> high")
    case True
    have eq: "scan_left a pivot high left tr = scan_left a pivot high (left + 1) (tr @ [Rd left])"
      by (subst scan_left.simps) (use True in simp)
    from "1.IH" [OF True] obtain left' tr' where
      r: "scan_left a pivot high (left + 1) (tr @ [Rd left]) = (left', tr')"
      and b: "left + 1 \<le> left'" "left + 1 \<le> high + 1 \<longrightarrow> left' \<le> high + 1"
      and le: "\<forall>i. left + 1 \<le> i \<and> i < left' \<longrightarrow> a i \<le> pivot"
      and stop: "\<not> (a left' \<le> pivot \<and> left' \<le> high)"
      by blast
    have "\<forall>i. left \<le> i \<and> i < left' \<longrightarrow> a i \<le> pivot"
    proof (intro allI impI)
      fix i assume "left \<le> i \<and> i < left'"
      then show "a i \<le> pivot"
        using le True by (cases "i = left") auto
    qed
    with r b stop True show ?thesis unfolding eq by auto
  next
    case False
    have eq: "scan_left a pivot high left tr = (left, tr @ [Rd left])"
      by (subst scan_left.simps) (use False in auto)
    show ?thesis unfolding eq using False by auto
  qed
qed

lemma scan_right_spec:
  assumes "k \<le> right" and "a k \<le> pivot"
  shows "\<exists>right' tr'. scan_right a pivot right tr = Some (right', tr')
     \<and> k \<le> right' \<and> right' \<le> right \<and> a right' \<le> pivot
     \<and> (\<forall>i. right' < i \<and> i \<le> right \<longrightarrow> pivot < a i)"
  using assms
proof (induction "nat (right - k)" arbitrary: right tr)
  case 0
  then have "right = k" by simp
  then have "scan_right a pivot right tr = Some (right, tr @ [Rd right])"
    using "0.prems" by (subst scan_right.simps) simp
  then show ?case using \<open>right = k\<close> "0.prems" by auto
next
  case (Suc d)
  show ?case
  proof (cases "a right > pivot")
    case True
    have eq: "scan_right a pivot right tr = scan_right a pivot (right - 1) (tr @ [Rd right])"
      by (subst scan_right.simps) (use True in simp)
    from Suc.hyps(2) have d: "d = nat (right - 1 - k)" and k: "k \<le> right - 1" by simp_all
    from Suc.hyps(1) [OF d k Suc.prems(2)] obtain right' tr' where
      r: "scan_right a pivot (right - 1) (tr @ [Rd right]) = Some (right', tr')"
      and b: "k \<le> right'" "right' \<le> right - 1" "a right' \<le> pivot"
      and gt: "\<forall>i. right' < i \<and> i \<le> right - 1 \<longrightarrow> pivot < a i"
      by blast
    have "\<forall>i. right' < i \<and> i \<le> right \<longrightarrow> pivot < a i"
    proof (intro allI impI)
      fix i assume "right' < i \<and> i \<le> right"
      then show "pivot < a i"
        using gt True by (cases "i = right") auto
    qed
    with r b show ?thesis unfolding eq by auto
  next
    case False
    have eq: "scan_right a pivot right tr = Some (right, tr @ [Rd right])"
      by (subst scan_right.simps) (use False in simp)
    show ?thesis unfolding eq using False Suc.prems by auto
  qed
qed

subsection \<open>partition_1\<close>

lemma partition_loop_spec:
  assumes "low \<le> left" and "left \<le> high + 1" and "low \<le> right" and "right \<le> high"
    and "a low = pivot"
    and "\<forall>i. low \<le> i \<and> i < left \<longrightarrow> a i \<le> pivot"
    and "\<forall>i. right < i \<and> i \<le> high \<longrightarrow> pivot < a i"
    and "left < right \<longrightarrow> a left \<le> pivot"
    and "left < right \<or> a right \<le> pivot"
  shows "\<exists>a' r tr'. partition_loop pivot high a left right tr = Some (a', r, tr')
      \<and> low \<le> r \<and> r \<le> high \<and> a' low = pivot \<and> a' r \<le> pivot
      \<and> (\<forall>i. low \<le> i \<and> i < r \<longrightarrow> a' i \<le> pivot)
      \<and> (\<forall>i. r < i \<and> i \<le> high \<longrightarrow> pivot < a' i)
      \<and> mset (map a' [low..high]) = mset (map a [low..high])
      \<and> (\<forall>i. i < low \<or> high < i \<longrightarrow> a' i = a i)"
  using assms
proof (induction "nat (right - left)" arbitrary: a left right tr rule: less_induct)
  case less
  note lo_left = less.prems(1) and left_hi = less.prems(2) and lo_right = less.prems(3)
    and right_hi = less.prems(4) and piv = less.prems(5) and small = less.prems(6)
    and large = less.prems(7) and progress = less.prems(8) and final = less.prems(9)
  show ?case
  proof (cases "left < right")
    case False
    have eq: "partition_loop pivot high a left right tr = Some (a, right, tr)"
      by (subst partition_loop.simps) (use False in simp)
    have "a right \<le> pivot" using final False by blast
    moreover have "\<forall>i. low \<le> i \<and> i < right \<longrightarrow> a i \<le> pivot"
      using small False by auto
    ultimately show ?thesis
      unfolding eq using lo_right right_hi piv large by auto
  next
    case True
    from scan_left_spec [of a pivot high left tr] obtain left' tr1 where
      sl: "scan_left a pivot high left tr = (left', tr1)"
      and l1: "left \<le> left'" and l2: "left \<le> high + 1 \<longrightarrow> left' \<le> high + 1"
      and l3: "\<forall>i. left \<le> i \<and> i < left' \<longrightarrow> a i \<le> pivot"
      and l4: "\<not> (a left' \<le> pivot \<and> left' \<le> high)"
      by blast
    have "left' \<noteq> left" using l4 progress True right_hi by auto
    with l1 have adv: "left < left'" by simp
    from l2 left_hi have left'_hi: "left' \<le> high + 1" by simp
    have small': "\<forall>i. low \<le> i \<and> i < left' \<longrightarrow> a i \<le> pivot"
    proof (intro allI impI)
      fix i assume "low \<le> i \<and> i < left'"
      then show "a i \<le> pivot" using small l3 by (cases "i < left") auto
    qed
    from piv have stopper: "a low \<le> pivot" by simp
    from scan_right_spec [of low right a pivot tr1] lo_right stopper obtain right' tr2 where
      sr: "scan_right a pivot right tr1 = Some (right', tr2)"
      and r1: "low \<le> right'" and r2: "right' \<le> right" and r3: "a right' \<le> pivot"
      and r4: "\<forall>i. right' < i \<and> i \<le> right \<longrightarrow> pivot < a i"
      by blast
    have large': "\<forall>i. right' < i \<and> i \<le> high \<longrightarrow> pivot < a i"
    proof (intro allI impI)
      fix i assume "right' < i \<and> i \<le> high"
      then show "pivot < a i" using large r4 by (cases "i \<le> right") auto
    qed
    show ?thesis
    proof (cases "left' < right'")
      case swap: True
      define a2 where "a2 = a(left' := a right', right' := a left')"
      define tr3 where "tr3 = tr2 @ [Rd left', Rd right', Wr left', Wr right']"
      have eq: "partition_loop pivot high a left right tr
          = partition_loop pivot high a2 left' right' tr3"
        by (subst partition_loop.simps) (simp add: True sl sr swap a2_def tr3_def)
      have in_range: "low \<le> left'" "left' \<le> high" "low \<le> right'" "right' \<le> high"
        using adv lo_left swap r2 right_hi by simp_all
      have "\<exists>a' r tr'. partition_loop pivot high a2 left' right' tr3 = Some (a', r, tr')
          \<and> low \<le> r \<and> r \<le> high \<and> a' low = pivot \<and> a' r \<le> pivot
          \<and> (\<forall>i. low \<le> i \<and> i < r \<longrightarrow> a' i \<le> pivot)
          \<and> (\<forall>i. r < i \<and> i \<le> high \<longrightarrow> pivot < a' i)
          \<and> mset (map a' [low..high]) = mset (map a2 [low..high])
          \<and> (\<forall>i. i < low \<or> high < i \<longrightarrow> a' i = a2 i)"
      proof (rule less.hyps)
        show "nat (right' - left') < nat (right - left)" using adv r2 swap by simp
        show "low \<le> left'" "left' \<le> high + 1" "low \<le> right'" "right' \<le> high"
          using in_range by simp_all
        show "a2 low = pivot" using piv adv lo_left swap by (simp add: a2_def)
        show "\<forall>i. low \<le> i \<and> i < left' \<longrightarrow> a2 i \<le> pivot"
          using small' swap by (simp add: a2_def)
        show "\<forall>i. right' < i \<and> i \<le> high \<longrightarrow> pivot < a2 i"
          using large' swap by (simp add: a2_def)
        show "left' < right' \<longrightarrow> a2 left' \<le> pivot"
          using r3 swap by (simp add: a2_def)
        show "left' < right' \<or> a2 right' \<le> pivot" using swap by simp
      qed
      moreover have "mset (map a2 [low..high]) = mset (map a [low..high])"
        unfolding a2_def using in_range by (intro mset_segment_swap)
      moreover have "\<forall>i. i < low \<or> high < i \<longrightarrow> a2 i = a i"
        using in_range by (auto simp: a2_def)
      ultimately show ?thesis unfolding eq by auto
    next
      case noswap: False
      have eq: "partition_loop pivot high a left right tr
          = partition_loop pivot high a left' right' tr2"
        by (subst partition_loop.simps) (simp add: True sl sr noswap)
      show ?thesis unfolding eq
      proof (rule less.hyps)
        show "nat (right' - left') < nat (right - left)" using noswap True by simp
        show "low \<le> left'" using adv lo_left by simp
        show "left' \<le> high + 1" by (rule left'_hi)
        show "low \<le> right'" by (rule r1)
        show "right' \<le> high" using r2 right_hi by simp
        show "a low = pivot" by (rule piv)
        show "\<forall>i. low \<le> i \<and> i < left' \<longrightarrow> a i \<le> pivot" by (rule small')
        show "\<forall>i. right' < i \<and> i \<le> high \<longrightarrow> pivot < a i" by (rule large')
        show "left' < right' \<longrightarrow> a left' \<le> pivot" using noswap by simp
        show "left' < right' \<or> a right' \<le> pivot" using r3 by simp
      qed
    qed
  qed
qed

lemma partition_1_spec:
  assumes "low < high"
  shows "\<exists>a' r tr. partition_1 a low high = Some (a', r, tr)
      \<and> low \<le> r \<and> r \<le> high
      \<and> (\<forall>i. low \<le> i \<and> i < r \<longrightarrow> a' i \<le> a' r)
      \<and> (\<forall>i. r < i \<and> i \<le> high \<longrightarrow> a' r < a' i)
      \<and> mset (map a' [low..high]) = mset (map a [low..high])
      \<and> (\<forall>i. i < low \<or> high < i \<longrightarrow> a' i = a i)"
proof -
  define pivot where "pivot = a low"
  have "\<exists>b r tr'. partition_loop pivot high a low high [Rd low] = Some (b, r, tr')
      \<and> low \<le> r \<and> r \<le> high \<and> b low = pivot \<and> b r \<le> pivot
      \<and> (\<forall>i. low \<le> i \<and> i < r \<longrightarrow> b i \<le> pivot)
      \<and> (\<forall>i. r < i \<and> i \<le> high \<longrightarrow> pivot < b i)
      \<and> mset (map b [low..high]) = mset (map a [low..high])
      \<and> (\<forall>i. i < low \<or> high < i \<longrightarrow> b i = a i)"
    by (rule partition_loop_spec) (use assms in \<open>simp_all add: pivot_def\<close>)
  then obtain b r tr' where
    loop: "partition_loop pivot high a low high [Rd low] = Some (b, r, tr')"
    and range: "low \<le> r" "r \<le> high" and b_low: "b low = pivot" and b_r: "b r \<le> pivot"
    and small: "\<forall>i. low \<le> i \<and> i < r \<longrightarrow> b i \<le> pivot"
    and large: "\<forall>i. r < i \<and> i \<le> high \<longrightarrow> pivot < b i"
    and perm: "mset (map b [low..high]) = mset (map a [low..high])"
    and frame: "\<forall>i. i < low \<or> high < i \<longrightarrow> b i = a i"
    by blast
  define c where "c = b(low := b r, r := pivot)"
  have res: "partition_1 a low high = Some (c, r, tr' @ [Rd r, Wr low, Wr r])"
    by (simp add: partition_1_def Let_def pivot_def [symmetric] loop c_def)
  have c_swap: "c = b(low := b r, r := b low)" by (simp add: c_def b_low)
  have "mset (map c [low..high]) = mset (map b [low..high])"
    unfolding c_swap using range assms by (intro mset_segment_swap) simp_all
  with perm have perm': "mset (map c [low..high]) = mset (map a [low..high])" by simp
  have c_r: "c r = pivot" by (simp add: c_def)
  have "\<forall>i. low \<le> i \<and> i < r \<longrightarrow> c i \<le> c r"
    unfolding c_r using small b_r by (auto simp: c_def)
  moreover have "\<forall>i. r < i \<and> i \<le> high \<longrightarrow> c r < c i"
    unfolding c_r using large range by (auto simp: c_def)
  moreover have "\<forall>i. i < low \<or> high < i \<longrightarrow> c i = a i"
    using frame range by (auto simp: c_def)
  ultimately show ?thesis using res range perm' by blast
qed

subsection \<open>quick_sort_1 and quick_sort\<close>

lemma quick_sort_1_spec:
  "\<exists>a' tr. quick_sort_1 a low high = Some (a', tr)
      \<and> mset (map a' [low..high]) = mset (map a [low..high])
      \<and> (\<forall>i. i < low \<or> high < i \<longrightarrow> a' i = a i)
      \<and> sorted (map a' [low..high])"
proof (induction "nat (high - low + 1)" arbitrary: a low high rule: less_induct)
  case less
  show ?case
  proof (cases "low < high")
    case False
    have eq: "quick_sort_1 a low high = Some (a, [])"
      by (subst quick_sort_1.simps) (use False in simp)
    have "sorted (map a [low..high])"
    proof (cases "low = high")
      case True
      then show ?thesis by simp
    next
      case ne: False
      with False have "high < low" by simp
      then show ?thesis by simp
    qed
    then show ?thesis unfolding eq by simp
  next
    case True
    from partition_1_spec [OF True, of a] obtain a1 r tr1 where
      part: "partition_1 a low high = Some (a1, r, tr1)"
      and range: "low \<le> r" "r \<le> high"
      and small: "\<forall>i. low \<le> i \<and> i < r \<longrightarrow> a1 i \<le> a1 r"
      and large: "\<forall>i. r < i \<and> i \<le> high \<longrightarrow> a1 r < a1 i"
      and perm1: "mset (map a1 [low..high]) = mset (map a [low..high])"
      and frame1: "\<forall>i. i < low \<or> high < i \<longrightarrow> a1 i = a i"
      by blast
    have "nat (r - 1 - low + 1) < nat (high - low + 1)" using range True by simp
    from less.hyps [OF this, of a1] obtain a2 tr2 where
      left: "quick_sort_1 a1 low (r - 1) = Some (a2, tr2)"
      and perm2: "mset (map a2 [low..r - 1]) = mset (map a1 [low..r - 1])"
      and frame2: "\<forall>i. i < low \<or> r - 1 < i \<longrightarrow> a2 i = a1 i"
      and sorted2: "sorted (map a2 [low..r - 1])"
      by blast
    have "nat (high - (r + 1) + 1) < nat (high - low + 1)" using range True by simp
    from less.hyps [OF this, of a2] obtain a3 tr3 where
      right: "quick_sort_1 a2 (r + 1) high = Some (a3, tr3)"
      and perm3: "mset (map a3 [r + 1..high]) = mset (map a2 [r + 1..high])"
      and frame3: "\<forall>i. i < r + 1 \<or> high < i \<longrightarrow> a3 i = a2 i"
      and sorted3: "sorted (map a3 [r + 1..high])"
      by blast
    have eq: "quick_sort_1 a low high = Some (a3, tr1 @ tr2 @ tr3)"
      by (subst quick_sort_1.simps) (simp add: True part left right)
    have split: "[low..high] = [low..r - 1] @ r # [r + 1..high]"
      using range by (rule upto_split3)
    have L: "map a3 [low..r - 1] = map a2 [low..r - 1]"
      using frame3 by simp
    have R: "map a2 [r + 1..high] = map a1 [r + 1..high]"
      using frame2 by simp
    have mid: "a3 r = a1 r" using frame2 frame3 by simp
    have "mset (map a3 [low..high])
        = mset (map a3 [low..r - 1]) + {#a3 r#} + mset (map a3 [r + 1..high])"
      unfolding split by (simp only: map_append list.map mset_append mset.simps) simp
    also have "\<dots> = mset (map a1 [low..r - 1]) + {#a1 r#} + mset (map a1 [r + 1..high])"
      by (simp only: L perm2 mid perm3 R)
    also have "\<dots> = mset (map a1 [low..high])"
      unfolding split by (simp only: map_append list.map mset_append mset.simps) simp
    finally have "mset (map a3 [low..high]) = mset (map a1 [low..high])" .
    with perm1 have perm: "mset (map a3 [low..high]) = mset (map a [low..high])" by simp
    have frame: "\<forall>i. i < low \<or> high < i \<longrightarrow> a3 i = a i"
      using frame1 frame2 frame3 range by auto
    have setL: "set (map a3 [low..r - 1]) = set (map a1 [low..r - 1])"
      unfolding L using perm2 by (rule mset_eq_setD)
    have setR: "set (map a3 [r + 1..high]) = set (map a1 [r + 1..high])"
      using perm3 unfolding R by (rule mset_eq_setD)
    have lowers: "\<forall>x \<in> set (map a3 [low..r - 1]). x \<le> a1 r"
      unfolding setL using small by auto
    have uppers: "\<forall>y \<in> set (map a3 [r + 1..high]). a1 r < y"
      unfolding setR using large by auto
    have "sorted (map a3 [low..r - 1] @ a1 r # map a3 [r + 1..high])"
      unfolding sorted_append
    proof (intro conjI ballI)
      show "sorted (map a3 [low..r - 1])" unfolding L by (rule sorted2)
      show "sorted (a1 r # map a3 [r + 1..high])"
        using sorted3 uppers by (auto simp: less_imp_le)
      fix x y assume x: "x \<in> set (map a3 [low..r - 1])"
        and y: "y \<in> set (a1 r # map a3 [r + 1..high])"
      from x lowers have "x \<le> a1 r" by blast
      moreover from y uppers have "a1 r \<le> y" by (auto simp: less_imp_le)
      ultimately show "x \<le> y" by simp
    qed
    then have "sorted (map a3 [low..high])"
      unfolding split by (simp add: mid)
    with eq perm frame show ?thesis by blast
  qed
qed

lemma upto_as_nats: "[0..int m - 1] = map int [0..<m]"
proof (induction m)
  case 0
  show ?case by simp
next
  case (Suc m)
  have "[0..int (Suc m) - 1] = [0..int m - 1] @ [int m]"
    using upto_rec2 [of 0 "int m"] by simp
  with Suc show ?case by simp
qed

lemma contents_as_segment: "contents arr = map (vals arr) [0..sz arr - 1]"
proof (cases "0 \<le> sz arr")
  case True
  then have "[0..sz arr - 1] = map int [0..<nat (sz arr)]"
    using upto_as_nats [of "nat (sz arr)"] by simp
  then show ?thesis by (simp add: contents_def comp_def)
next
  case False
  then show ?thesis by (simp add: contents_def)
qed

lemma quick_sort_spec:
  "\<exists>arr' tr. quick_sort arr = Some (arr', tr) \<and> sz arr' = sz arr
      \<and> mset (contents arr') = mset (contents arr) \<and> sorted (contents arr')
      \<and> (\<forall>i. i < 0 \<or> sz arr \<le> i \<longrightarrow> vals arr' i = vals arr i)"
proof -
  from quick_sort_1_spec [of "vals arr" 0 "sz arr - 1"] obtain a' tr where
    run: "quick_sort_1 (vals arr) 0 (sz arr - 1) = Some (a', tr)"
    and perm: "mset (map a' [0..sz arr - 1]) = mset (map (vals arr) [0..sz arr - 1])"
    and frame: "\<forall>i. i < 0 \<or> sz arr - 1 < i \<longrightarrow> a' i = vals arr i"
    and srt: "sorted (map a' [0..sz arr - 1])"
    by blast
  have res: "quick_sort arr = Some (arr\<lparr>vals := a'\<rparr>, tr)"
    by (simp add: quick_sort_def run)
  have c: "contents (arr\<lparr>vals := a'\<rparr>) = map a' [0..sz arr - 1]"
    by (simp only: contents_as_segment) simp
  have c0: "contents arr = map (vals arr) [0..sz arr - 1]"
    by (rule contents_as_segment)
  have "sz (arr\<lparr>vals := a'\<rparr>) = sz arr" by simp
  moreover have "mset (contents (arr\<lparr>vals := a'\<rparr>)) = mset (contents arr)"
    unfolding c c0 by (rule perm)
  moreover have "sorted (contents (arr\<lparr>vals := a'\<rparr>))"
    unfolding c by (rule srt)
  moreover have "\<forall>i. i < 0 \<or> sz arr \<le> i \<longrightarrow> vals (arr\<lparr>vals := a'\<rparr>) i = vals arr i"
    using frame by simp
  ultimately show ?thesis using res by blast
qed

lemma sorted_same_mset_eq:
  assumes "sorted xs" and "sorted ys" and "mset ys = mset xs"
  shows "ys = (xs :: int list)"
proof -
  have "sort xs = ys" using assms(3) assms(2) by (rule properties_for_sort)
  moreover have "sort xs = xs" using refl assms(1) by (rule properties_for_sort)
  ultimately show ?thesis by simp
qed

text \<open>
  C3. For every array, \<open>quick_sort\<close> returns, and the sequence it leaves is a permutation of
  the input and non-decreasing; a sequence that was already sorted is left as it was.
  This holds whatever the cells around the array hold (a read past the last element returns
  that cell's value), and no cell outside the array is changed.
\<close>

theorem quick_sort_sorts:
  "\<exists>arr' tr. quick_sort arr = Some (arr', tr) \<and> sz arr' = sz arr
      \<and> mset (contents arr') = mset (contents arr) \<and> sorted (contents arr')
      \<and> (sorted (contents arr) \<longrightarrow> contents arr' = contents arr)
      \<and> (\<forall>i. i < 0 \<or> sz arr \<le> i \<longrightarrow> vals arr' i = vals arr i)"
proof -
  from quick_sort_spec [of arr] obtain arr' tr where
    run: "quick_sort arr = Some (arr', tr)" and size: "sz arr' = sz arr"
    and perm: "mset (contents arr') = mset (contents arr)" and srt: "sorted (contents arr')"
    and frame: "\<forall>i. i < 0 \<or> sz arr \<le> i \<longrightarrow> vals arr' i = vals arr i"
    by blast
  have "sorted (contents arr) \<longrightarrow> contents arr' = contents arr"
    using sorted_same_mset_eq [OF _ srt perm] by blast
  with run size perm srt frame show ?thesis by blast
qed

theorem quick_sort_sorts_witness:
  "\<exists>arr' tr. quick_sort (array_of (\<lambda>_. 0) [1, 2, 2, 5]) = Some (arr', tr)
      \<and> sorted [1, 2, 2, 5 :: int] \<and> contents arr' = [1, 2, 2, 5] \<and> vals arr' 4 = 0"
  using quick_sort_sorts [of "array_of (\<lambda>_. 0) [1, 2, 2, 5]"]
  by (auto simp: contents_array_of) (simp add: array_of_def)

text \<open>
  C4. The specification takes every access of \<open>quick_sort\<close> to stay inside the subrange
  being partitioned. Sorting the two-element array \<open>[2, 1]\<close> partitions the subrange \<open>0 .. 1\<close>; its
  left cursor passes both elements, which are not greater than the pivot 2, and the loop
  test then reads \<open>array[2]\<close>, the cell after the array, before it compares \<open>left\<close> with
  \<open>high\<close>.
\<close>

theorem quick_sort_reads_past_high:
  "map_option snd (quick_sort (array_of junk [2, 1]))
     = Some [Rd 0, Rd 0, Rd 1, Rd 2, Rd 1, Rd 1, Wr 0, Wr 1]
   \<and> map_option (snd \<circ> snd) (partition_1 (vals (array_of junk [2, 1])) 0 1)
     = Some [Rd 0, Rd 0, Rd 1, Rd 2, Rd 1, Rd 1, Wr 0, Wr 1]
   \<and> sz (array_of junk [2, 1]) = 2"
  by (simp add: quick_sort_def quick_sort_1.simps partition_1_def partition_loop.simps
      scan_left.simps scan_right.simps array_of_def Let_def)

section \<open>Maximum subarray sum: bounds\<close>









section \<open>Tower of Hanoi: number of moves\<close>

lemma length_solve_hanoi_1:
  "0 \<le> num \<Longrightarrow> int (length (solve_hanoi_1 num f t s)) = 2 ^ nat num - 1"
proof (induction num f t s rule: solve_hanoi_1.induct)
  case (1 num f t s)
  show ?case
  proof (cases "num > 1")
    case True
    then have p: "(2::int) ^ nat num = 2 * 2 ^ nat (num - 1)"
      by (metis Suc_nat_eq_nat_zadd1 add.commute diff_add_cancel diff_ge_0_iff_ge
          less_imp_le power_Suc)
    from True have a: "int (length (solve_hanoi_1 (num - 1) f s t)) = 2 ^ nat (num - 1) - 1"
      and b: "int (length (solve_hanoi_1 (num - 1) s t f)) = 2 ^ nat (num - 1) - 1"
      using "1.IH" by simp_all
    show ?thesis
      by (subst solve_hanoi_1.simps) (use True a b p in simp)
  next
    case False
    with "1.prems" have "num = 0 \<or> num = 1" by arith
    then show ?thesis
      by (subst solve_hanoi_1.simps) auto
  qed
qed

text \<open>
  C7. For every disk count \<open>num \<ge> 0\<close>, \<open>solve_hanoi\<close> emits exactly \<open>2^num - 1\<close> move
  notifications: none for \<open>num = 0\<close>, exactly one for \<open>num = 1\<close>; for \<open>num \<ge> 1\<close> the move
  step runs once, between the two recursive calls, which happen only for \<open>num > 1\<close>.
\<close>

theorem solve_hanoi_move_count:
  "(0 \<le> num \<longrightarrow> int (length (solve_hanoi num)) = 2 ^ nat num - 1)
   \<and> solve_hanoi 0 = []
   \<and> solve_hanoi 1 = [''move remaining one from_peg -> to_peg'']
   \<and> (1 < num \<longrightarrow> solve_hanoi_1 num f t s =
         solve_hanoi_1 (num - 1) f s t @ [''move remaining one from_peg -> to_peg'']
           @ solve_hanoi_1 (num - 1) s t f)
   \<and> (num < 1 \<longrightarrow> solve_hanoi_1 num f t s = [])"
proof -
  have count: "0 \<le> num \<longrightarrow> int (length (solve_hanoi num)) = 2 ^ nat num - 1"
    by (simp add: solve_hanoi_def length_solve_hanoi_1)
  have zero: "solve_hanoi 0 = []"
    by (simp add: solve_hanoi_def solve_hanoi_1.simps)
  have one: "solve_hanoi 1 = [''move remaining one from_peg -> to_peg'']"
    by (simp add: solve_hanoi_def solve_hanoi_1.simps)
  have more: "1 < num \<longrightarrow> solve_hanoi_1 num f t s =
      solve_hanoi_1 (num - 1) f s t @ [''move remaining one from_peg -> to_peg'']
        @ solve_hanoi_1 (num - 1) s t f"
    by (subst solve_hanoi_1.simps) simp
  have none: "num < 1 \<longrightarrow> solve_hanoi_1 num f t s = []"
    by (subst solve_hanoi_1.simps) simp
  from count zero one more none show ?thesis by blast
qed

theorem solve_hanoi_move_count_witness:
  "(0::int) \<le> 3 \<and> int (length (solve_hanoi 3)) = 7
   \<and> solve_hanoi_1 3 1 2 3 = solve_hanoi_1 2 1 3 2
        @ [''move remaining one from_peg -> to_peg''] @ solve_hanoi_1 2 3 2 1"
proof -
  have "0 \<le> (3::int)" and "1 < (3::int)" by simp_all
  moreover have "(2::int) ^ nat 3 - 1 = 7" by simp
  moreover have "(3::int) - 1 = 2" by simp
  ultimately show ?thesis
    using solve_hanoi_move_count [of 3 1 2 3] by metis
qed

section \<open>The harness\<close>

subsection \<open>Setup\<close>

lemma fill_int_array_count: "snd (fill_int_array rnd a s i k) = k + nat (s - i)"
proof (induction rnd a s i k rule: fill_int_array.induct)
  case (1 rnd a s i k)
  show ?case
  proof (cases "i < s")
    case True
    have eq: "fill_int_array rnd a s i k
        = fill_int_array rnd (a(i := int (rnd k))) s (i + 1) (k + 1)"
      by (subst fill_int_array.simps) (use True in simp)
    have step: "nat (s - i) = Suc (nat (s - (i + 1)))" using True by simp
    have "snd (fill_int_array rnd (a(i := int (rnd k))) s (i + 1) (k + 1))
        = k + 1 + nat (s - (i + 1))"
      by (rule "1.IH" [OF True])
    then show ?thesis unfolding eq step by simp
  next
    case False
    have eq: "fill_int_array rnd a s i k = (a, k)"
      by (subst fill_int_array.simps) (use False in simp)
    show ?thesis unfolding eq using False by simp
  qed
qed

lemma create_int_array_count:
  "\<exists>m. create_int_array rnd fresh s k = (m, k + nat s)"
proof -
  have "snd (create_int_array rnd fresh s k) = k + nat s"
    using fill_int_array_count [of rnd fresh s 0 k] by (simp add: create_int_array_def)
  then show ?thesis by (metis prod.collapse)
qed

lemma draw_again_returns:
  "\<not> (int (rnd (k + 2 * j)) smod s < int (rnd (k + 2 * j + 1)) smod s) \<Longrightarrow>
   \<exists>f' t' k'. draw_again rnd s f t k = Some (f', t', k') \<and> t' \<le> f'"
proof (induction j arbitrary: f t k)
  case 0
  show ?case
  proof (cases "f < t")
    case True
    have "draw_again rnd s f t k
        = draw_again rnd s (int (rnd k) smod s) (int (rnd (k + 1)) smod s) (k + 2)"
      by (subst draw_again.simps) (use True in simp)
    also have "\<dots> = Some (int (rnd k) smod s, int (rnd (k + 1)) smod s, k + 2)"
      by (subst draw_again.simps) (use "0.prems" in simp)
    finally show ?thesis using "0.prems" by simp
  next
    case False
    then have "draw_again rnd s f t k = Some (f, t, k)"
      by (subst draw_again.simps) simp
    with False show ?thesis by simp
  qed
next
  case (Suc j)
  show ?case
  proof (cases "f < t")
    case True
    have eq: "draw_again rnd s f t k
        = draw_again rnd s (int (rnd k) smod s) (int (rnd (k + 1)) smod s) (k + 2)"
      by (subst draw_again.simps) (use True in simp)
    have "\<not> (int (rnd (k + 2 + 2 * j)) smod s < int (rnd (k + 2 + 2 * j + 1)) smod s)"
      using Suc.prems by (simp add: algebra_simps)
    from Suc.IH [OF this] show ?thesis unfolding eq .
  next
    case False
    then have "draw_again rnd s f t k = Some (f, t, k)"
      by (subst draw_again.simps) simp
    with False show ?thesis by simp
  qed
qed

lemma draw_again_reversed_triple:
  assumes run: "draw_again rnd s f t k = Some y"
  shows "fst (snd y) \<le> fst y"
proof (rule draw_again.raw_induct
    [where P = "\<lambda>rnd s f t k y. fst (snd y) \<le> fst y", OF _ run])
  fix draw :: "(nat \<Rightarrow> nat) \<Rightarrow> int \<Rightarrow> int \<Rightarrow> int \<Rightarrow> nat \<Rightarrow> (int \<times> int \<times> nat) option"
    and rnd s f t k y
  assume IH: "\<And>rnd s f t k y. draw rnd s f t k = Some y \<Longrightarrow> fst (snd y) \<le> fst y"
    and body: "(if f < t
        then draw rnd s (int (rnd k) smod s) (int (rnd (k + 1)) smod s) (k + 2)
        else Some (f, t, k)) = Some y"
  show "fst (snd y) \<le> fst y"
  proof (cases "f < t")
    case True
    with body have "draw rnd s (int (rnd k) smod s) (int (rnd (k + 1)) smod s) (k + 2) = Some y"
      by simp
    then show ?thesis by (rule IH)
  next
    case False
    with body show ?thesis by auto
  qed
qed

lemma draw_again_reversed:
  "draw_again rnd s f t k = Some (f', t', k') \<Longrightarrow> t' \<le> f'"
  using draw_again_reversed_triple [of rnd s f t k "(f', t', k')"] by simp



lemma setup_slice_sums_returns:
  "0 < sz (array rs) \<Longrightarrow>
   \<exists>rs'. setup_slice_sums fresh rs = Inr rs' \<and> 0 < root_sz rs' \<and> array rs' = array rs"
proof -
  assume pos: "0 < sz (array rs)"
  then have "0 < long_sqrt (sz (array rs))" by (rule long_sqrt_pos)
  with pos show ?thesis by (simp add: setup_slice_sums_def Let_def)
qed

subsection \<open>The registry that create_environments builds\<close>


lemma small_size_allocated: "0 < s \<Longrightarrow> s < 2 ^ 61 \<Longrightarrow> \<not> malloc_refused s"
  by (simp add: malloc_refused_def)

lemma create_environments_up_to_draws:
  assumes pos: "0 < s" and small: "s < 2 ^ 61"
  shows "\<exists>arr srch rs0 marr. 0 < root_sz rs0 \<and>
      create_environments w s =
        (case draw_again (rand w) s (int (rand w (3 * nat s + 1)) smod s)
                (int (rand w (3 * nat s + 2)) smod s) (3 * nat s + 3) of
           None \<Rightarrow> Inl No_return
         | Some (f', t', k4) \<Rightarrow> Inr
        [\<lparr>n = s, algo = Some Get_first, data = Some (Array_data arr), oclass = O1\<rparr>,
         \<lparr>n = s, algo = Some Binary_jump_search, data = Some (Search_data srch),
          oclass = O_logn\<rparr>,
         \<lparr>n = s, algo = Some Range_sum_query, data = Some (Range_sum_data (rs0\<lparr>rs_from := f', rs_to := t'\<rparr>)),
          oclass = O_sqrtn\<rparr>,
         \<lparr>n = s, algo = Some Linear_search, data = Some (Search_data srch), oclass = O_n\<rparr>,
         \<lparr>n = s, algo = Some Quick_sort, data = Some (Array_data marr), oclass = O_nlogn\<rparr>,
         \<lparr>n = s, algo = Some Find_max_seq_sum, data = Some (Array_data arr),
          oclass = O_n_power_2\<rparr>,
         \<lparr>n = s, algo = Some Solve_hanoi, data = Some (Long_data s), oclass = O_2_power_n\<rparr>,
         \<lparr>n = s, algo = Some Do_nothing, data = None, oclass = O_n_permut\<rparr>,
         \<lparr>n = s, algo = Some Do_nothing, data = None, oclass = O_n_power_n\<rparr>,
         (fresh_environment w)\<lparr>algo := None\<rparr>])"
proof -
  define k3 where "k3 = 3 * nat s"
  obtain vals1 where c1: "create_int_array (rand w) (fresh_ints w 0) s 0 = (vals1, nat s)"
    using create_int_array_count [of "rand w" "fresh_ints w 0" s 0] by auto
  obtain vals2 where
    c2: "create_int_array (rand w) (fresh_ints w 1) s (nat s) = (vals2, nat s + nat s)"
    using create_int_array_count [of "rand w" "fresh_ints w 1" s "nat s"] by auto
  obtain vals3 where
    c3: "create_int_array (rand w) (fresh_ints w 2) s (nat s + nat s) = (vals3, k3)"
    using create_int_array_count [of "rand w" "fresh_ints w 2" s "nat s + nat s"]
    by (auto simp: k3_def)
  obtain sorted_array tr where
    q1: "quick_sort \<lparr>sz = s, vals = vals1\<rparr> = Some (sorted_array, tr)"
    and sz1: "sz sorted_array = s"
    using quick_sort_spec [of "\<lparr>sz = s, vals = vals1\<rparr>"] by auto
  define arr where "arr = \<lparr>sz = s, vals = vals2\<rparr>"
  define marr where "marr = \<lparr>sz = s, vals = vals3\<rparr>"
  define srch where "srch = \<lparr>needle = vals sorted_array (int (rand w k3) smod s),
      haystack = sorted_array\<rparr>"
  obtain rs0 where
    slices: "setup_slice_sums (fresh_ints w 3) ((fresh_range_sum w)\<lparr>array := arr\<rparr>) = Inr rs0"
    and root: "0 < root_sz rs0" and arr0: "array rs0 = arr"
    using setup_slice_sums_returns [of "(fresh_range_sum w)\<lparr>array := arr\<rparr>" "fresh_ints w 3"] pos
    by (auto simp: arr_def)
  have allowed: "\<not> malloc_refused s" and nonzero: "s \<noteq> 0"
    using pos small by (simp_all add: small_size_allocated)
  have "create_environments w s =
        (case draw_again (rand w) s (int (rand w (k3 + 1)) smod s)
                (int (rand w (k3 + 2)) smod s) (k3 + 3) of
           None \<Rightarrow> Inl No_return
         | Some (f', t', k4) \<Rightarrow> Inr
        [\<lparr>n = s, algo = Some Get_first, data = Some (Array_data arr), oclass = O1\<rparr>,
         \<lparr>n = s, algo = Some Binary_jump_search, data = Some (Search_data srch),
          oclass = O_logn\<rparr>,
         \<lparr>n = s, algo = Some Range_sum_query, data = Some (Range_sum_data (rs0\<lparr>rs_from := f', rs_to := t'\<rparr>)),
          oclass = O_sqrtn\<rparr>,
         \<lparr>n = s, algo = Some Linear_search, data = Some (Search_data srch), oclass = O_n\<rparr>,
         \<lparr>n = s, algo = Some Quick_sort, data = Some (Array_data marr), oclass = O_nlogn\<rparr>,
         \<lparr>n = s, algo = Some Find_max_seq_sum, data = Some (Array_data arr),
          oclass = O_n_power_2\<rparr>,
         \<lparr>n = s, algo = Some Solve_hanoi, data = Some (Long_data s), oclass = O_2_power_n\<rparr>,
         \<lparr>n = s, algo = Some Do_nothing, data = None, oclass = O_n_permut\<rparr>,
         \<lparr>n = s, algo = Some Do_nothing, data = None, oclass = O_n_power_n\<rparr>,
         (fresh_environment w)\<lparr>algo := None\<rparr>])"
    unfolding create_environments_def arr_def marr_def srch_def
      c1 c2 c3 q1 slices [unfolded arr_def] returned_def Let_def
      prod.case sum.case option.case
    using nonzero allowed sz1 arr0
    by (simp add: long_as_pointer_def arr_def split: option.split)
  with root show ?thesis unfolding k3_def by blast
qed

lemma create_environments_built:
  assumes pos: "0 < s" and small: "s < 2 ^ 61"
    and stop: "\<exists>j. \<not> (int (rand w (3 * nat s + 1 + 2 * j)) smod s
                    < int (rand w (3 * nat s + 2 + 2 * j)) smod s)"
  shows "\<exists>arr srch rs marr.
      create_environments w s = Inr
        [\<lparr>n = s, algo = Some Get_first, data = Some (Array_data arr), oclass = O1\<rparr>,
         \<lparr>n = s, algo = Some Binary_jump_search, data = Some (Search_data srch),
          oclass = O_logn\<rparr>,
         \<lparr>n = s, algo = Some Range_sum_query, data = Some (Range_sum_data rs),
          oclass = O_sqrtn\<rparr>,
         \<lparr>n = s, algo = Some Linear_search, data = Some (Search_data srch), oclass = O_n\<rparr>,
         \<lparr>n = s, algo = Some Quick_sort, data = Some (Array_data marr), oclass = O_nlogn\<rparr>,
         \<lparr>n = s, algo = Some Find_max_seq_sum, data = Some (Array_data arr),
          oclass = O_n_power_2\<rparr>,
         \<lparr>n = s, algo = Some Solve_hanoi, data = Some (Long_data s), oclass = O_2_power_n\<rparr>,
         \<lparr>n = s, algo = Some Do_nothing, data = None, oclass = O_n_permut\<rparr>,
         \<lparr>n = s, algo = Some Do_nothing, data = None, oclass = O_n_power_n\<rparr>,
         (fresh_environment w)\<lparr>algo := None\<rparr>]
      \<and> 0 < root_sz rs \<and> rs_to rs \<le> rs_from rs
      \<and> (\<not> (int (rand w (3 * nat s + 1)) smod s < int (rand w (3 * nat s + 2)) smod s)
           \<longrightarrow> rs_from rs = int (rand w (3 * nat s + 1)) smod s
             \<and> rs_to rs = int (rand w (3 * nat s + 2)) smod s)"
proof -
  define k3 where "k3 = 3 * nat s"
  define F where "F = int (rand w (k3 + 1)) smod s"
  define T where "T = int (rand w (k3 + 2)) smod s"
  from create_environments_up_to_draws [OF pos small, of w] obtain arr srch rs0 marr where
    root: "0 < root_sz rs0"
    and made: "create_environments w s =
        (case draw_again (rand w) s F T (k3 + 3) of
           None \<Rightarrow> Inl No_return
         | Some (f', t', k4) \<Rightarrow> Inr
        [\<lparr>n = s, algo = Some Get_first, data = Some (Array_data arr), oclass = O1\<rparr>,
         \<lparr>n = s, algo = Some Binary_jump_search, data = Some (Search_data srch),
          oclass = O_logn\<rparr>,
         \<lparr>n = s, algo = Some Range_sum_query, data = Some (Range_sum_data (rs0\<lparr>rs_from := f', rs_to := t'\<rparr>)),
          oclass = O_sqrtn\<rparr>,
         \<lparr>n = s, algo = Some Linear_search, data = Some (Search_data srch), oclass = O_n\<rparr>,
         \<lparr>n = s, algo = Some Quick_sort, data = Some (Array_data marr), oclass = O_nlogn\<rparr>,
         \<lparr>n = s, algo = Some Find_max_seq_sum, data = Some (Array_data arr),
          oclass = O_n_power_2\<rparr>,
         \<lparr>n = s, algo = Some Solve_hanoi, data = Some (Long_data s), oclass = O_2_power_n\<rparr>,
         \<lparr>n = s, algo = Some Do_nothing, data = None, oclass = O_n_permut\<rparr>,
         \<lparr>n = s, algo = Some Do_nothing, data = None, oclass = O_n_power_n\<rparr>,
         (fresh_environment w)\<lparr>algo := None\<rparr>])"
    unfolding k3_def F_def T_def by blast
  have "\<exists>f' t' k'. draw_again (rand w) s F T (k3 + 3) = Some (f', t', k') \<and> t' \<le> f'
      \<and> (\<not> F < T \<longrightarrow> f' = F \<and> t' = T)"
  proof (cases "F < T")
    case False
    then have "draw_again (rand w) s F T (k3 + 3) = Some (F, T, k3 + 3)"
      by (subst draw_again.simps) simp
    with False show ?thesis by simp
  next
    case True
    from stop obtain j where
      j: "\<not> (int (rand w (k3 + 1 + 2 * j)) smod s < int (rand w (k3 + 2 + 2 * j)) smod s)"
      by (auto simp: k3_def)
    have "j \<noteq> 0"
    proof
      assume "j = 0"
      with j have "\<not> F < T" by (simp add: F_def T_def)
      with True show False by simp
    qed
    then obtain j' where Suc: "j = Suc j'" by (cases j) simp_all
    have e1: "k3 + 1 + 2 * Suc j' = k3 + 3 + 2 * j'"
      and e2: "k3 + 2 + 2 * Suc j' = k3 + 3 + 2 * j' + 1" by simp_all
    from j have "\<not> (int (rand w (k3 + 3 + 2 * j')) smod s
        < int (rand w (k3 + 3 + 2 * j' + 1)) smod s)"
      unfolding Suc e1 e2 .
    from draw_again_returns [OF this, of F T] True show ?thesis by blast
  qed
  then obtain f' t' k' where
    draw: "draw_again (rand w) s F T (k3 + 3) = Some (f', t', k')"
    and rev: "t' \<le> f'" and first: "\<not> F < T \<longrightarrow> f' = F \<and> t' = T"
    by blast
  define rs where "rs = rs0\<lparr>rs_from := f', rs_to := t'\<rparr>"
  have "create_environments w s = Inr
        [\<lparr>n = s, algo = Some Get_first, data = Some (Array_data arr), oclass = O1\<rparr>,
         \<lparr>n = s, algo = Some Binary_jump_search, data = Some (Search_data srch),
          oclass = O_logn\<rparr>,
         \<lparr>n = s, algo = Some Range_sum_query, data = Some (Range_sum_data rs),
          oclass = O_sqrtn\<rparr>,
         \<lparr>n = s, algo = Some Linear_search, data = Some (Search_data srch), oclass = O_n\<rparr>,
         \<lparr>n = s, algo = Some Quick_sort, data = Some (Array_data marr), oclass = O_nlogn\<rparr>,
         \<lparr>n = s, algo = Some Find_max_seq_sum, data = Some (Array_data arr),
          oclass = O_n_power_2\<rparr>,
         \<lparr>n = s, algo = Some Solve_hanoi, data = Some (Long_data s), oclass = O_2_power_n\<rparr>,
         \<lparr>n = s, algo = Some Do_nothing, data = None, oclass = O_n_permut\<rparr>,
         \<lparr>n = s, algo = Some Do_nothing, data = None, oclass = O_n_power_n\<rparr>,
         (fresh_environment w)\<lparr>algo := None\<rparr>]"
    unfolding made draw rs_def by simp
  moreover have "0 < root_sz rs" and "rs_to rs \<le> rs_from rs"
    using root rev by (simp_all add: rs_def)
  moreover have "\<not> (int (rand w (3 * nat s + 1)) smod s < int (rand w (3 * nat s + 2)) smod s)
           \<longrightarrow> rs_from rs = int (rand w (3 * nat s + 1)) smod s
             \<and> rs_to rs = int (rand w (3 * nat s + 2)) smod s"
    using first by (simp add: rs_def F_def T_def k3_def)
  ultimately show ?thesis by blast
qed



subsection \<open>The report for a positive size\<close>






lemma create_environments_range_reversed:
  assumes "create_environments w s = Inr environments"
  shows "\<exists>rs. data (environments ! 2) = Some (Range_sum_data rs) \<and> rs_to rs \<le> rs_from rs"
proof -
  obtain vals1 k1 where c1: "create_int_array (rand w) (fresh_ints w 0) s 0 = (vals1, k1)"
    by (cases "create_int_array (rand w) (fresh_ints w 0) s 0")
  obtain vals2 k2 where c2: "create_int_array (rand w) (fresh_ints w 1) s k1 = (vals2, k2)"
    by (cases "create_int_array (rand w) (fresh_ints w 1) s k1")
  obtain vals3 k3 where c3: "create_int_array (rand w) (fresh_ints w 2) s k2 = (vals3, k3)"
    by (cases "create_int_array (rand w) (fresh_ints w 2) s k2")
  from assms obtain rs0 f' t' k4 where
    draw: "draw_again (rand w) s (int (rand w (k3 + 1)) smod s)
        (int (rand w (k3 + 2)) smod s) (k3 + 3) = Some (f', t', k4)"
    and third: "environments ! 2 = \<lparr>n = sz (array (rs0\<lparr>rs_from := f', rs_to := t'\<rparr>)),
        algo = Some Range_sum_query,
        data = Some (Range_sum_data (rs0\<lparr>rs_from := f', rs_to := t'\<rparr>)), oclass = O_sqrtn\<rparr>"
    unfolding create_environments_def c1 c2 c3 prod.case Let_def returned_def
    by (auto split: option.splits sum.splits prod.splits if_splits)
  from draw have "t' \<le> f'" by (rule draw_again_reversed)
  with third show ?thesis by simp
qed



lemma atol_in_long: "long_min \<le> atol s \<and> atol s \<le> long_max"
  by (simp add: atol_def saturate_def long_max_def long_min_def)







text \<open>
  C1. The specification takes the setup to leave \<open>from \<le> to\<close>. Its loop draws the two bounds again
  while \<open>from < to\<close>, so it ends with \<open>to \<le> from\<close>. With size 2 and a \<open>rand()\<close> whose eighth
  value is 1 and whose other values are 0, the first draw is \<open>from = 1\<close>, \<open>to = 0\<close>; the loop
  keeps it, and the range sum handed to \<open>range_sum_query\<close> has \<open>from > to\<close>.
\<close>

theorem create_environments_range_from_above_to:
  "\<exists>environments rs.
     create_environments
       \<lparr>rand = (\<lambda>k. if k = 7 then 1 else 0), clock = c, fresh_ints = h,
        fresh_range_sum = frs, fresh_environment = fe\<rparr> 2 = Inr environments
     \<and> data (environments ! 2) = Some (Range_sum_data rs)
     \<and> algo (environments ! 2) = Some Range_sum_query
     \<and> rs_from rs = 1 \<and> rs_to rs = 0"
proof -
  define w where "w = \<lparr>rand = (\<lambda>k. if k = 7 then 1 else (0::nat)), clock = c, fresh_ints = h,
        fresh_range_sum = frs, fresh_environment = fe\<rparr>"
  have seven: "3 * nat 2 + 1 = (7::nat)" and eight: "3 * nat 2 + 2 = (8::nat)" by simp_all
  have first: "\<not> (int (rand w (3 * nat 2 + 1)) smod 2 < int (rand w (3 * nat 2 + 2)) smod 2)"
    unfolding seven eight by (simp add: w_def signed_modulo_int_def)
  then have stop: "\<exists>j. \<not> (int (rand w (3 * nat 2 + 1 + 2 * j)) smod 2
      < int (rand w (3 * nat 2 + 2 + 2 * j)) smod 2)"
    by (intro exI [of _ 0]) simp
  have vals: "int (rand w (3 * nat 2 + 1)) smod 2 = 1" "int (rand w (3 * nat 2 + 2)) smod 2 = 0"
    unfolding seven eight by (simp_all add: w_def signed_modulo_int_def)
  from create_environments_built [of 2 w, OF _ _ stop] first vals
  obtain environments rs where
    "create_environments w 2 = Inr environments"
    "data (environments ! 2) = Some (Range_sum_data rs)"
    "algo (environments ! 2) = Some Range_sum_query"
    "rs_from rs = 1" "rs_to rs = 0"
    by fastforce
  then show ?thesis unfolding w_def by blast
qed

end
